theory Spec2Isabelle
  imports Main
begin

section \<open>Exceptions and abrupt completion\<close>

text \<open>
  The C++ sources throw two kinds of objects: objects of classes derived from
  \<open>std::exception\<close> (\<open>SerialListenerException\<close> in \<open>serial_listener.cc\<close>)
  and string literals of type \<open>const char *\<close> (every \<open>throw\<close> of \<open>impl/unix.cc\<close>).
  A handler \<open>catch (std::exception &e)\<close> matches the first kind only.
  A \<open>StdException\<close> carries its \<open>what()\<close> text, a \<open>CString\<close> the literal.
\<close>

datatype thrown = StdException string | CString string

text \<open>
  A statement completes abruptly when it throws, when it calls \<open>exit\<close>, or when it
  leaves the behaviour defined by the language (an erased end iterator, \<open>back()\<close> of an
  empty vector, a null pointer dereferenced).
\<close>

datatype abrupt = Throw thrown | Exit | UndefinedBehaviour

section \<open>The byte source: \<open>Serial::SerialImpl\<close> of \<open>impl/unix.cc\<close>\<close>

text \<open>
  Only the fields that \<open>isOpen\<close> and \<open>read\<close> use are kept. A trailing underscore of a
  C++ member name is written as a prime (\<open>isOpen_\<close> is \<open>isOpen'\<close>), since a name may
  not end in an underscore here.
\<close>

record SerialImpl =
  fd' :: int
  isOpen' :: bool
  port' :: string

definition isOpen :: "SerialImpl \<Rightarrow> bool" where
  "isOpen p = isOpen' p"

text \<open>
  What the operating system answers during one pass of the loop of \<open>read\<close>:
  \<open>select\<close> returns \<open>-1\<close> with \<open>errno = EINTR\<close>, returns \<open>-1\<close> with another
  \<open>errno\<close>, returns without the descriptor being set (the timeout), or returns with
  the descriptor set; in the last case \<open>::read(fd_, buf, 1024)\<close> is called and
  returns either the bytes it stored (possibly none) or \<open>-1\<close>.
\<close>

datatype sys_read = ReadCount string | ReadError

datatype os_event = SelectInterrupted | SelectFailed | SelectTimeout | SelectReadable sys_read

text \<open>
  \<open>size_t bytes_read = ::read(fd_, buf, 1024)\<close>: at most 1024 bytes are stored, and the
  result \<open>-1\<close> converted to the unsigned 64-bit \<open>size_t\<close> is \<open>2^64 - 1\<close>.
\<close>

definition stored :: "string \<Rightarrow> string" where
  "stored bs = take 1024 bs"

definition bytes_read_of :: "sys_read \<Rightarrow> nat" where
  "bytes_read_of r = (case r of ReadCount bs \<Rightarrow> length (stored bs) | ReadError \<Rightarrow> 2 ^ 64 - 1)"

text \<open>
  The loop \<open>while (message.length() < size)\<close> of \<open>read\<close>, driven by the list of the
  operating system's answers. The result is \<open>None\<close> when the answers run out before
  the loop has ended. A failed \<open>select\<close> calls \<open>exit(EXIT_FAILURE)\<close>; a read of
  fewer than one byte throws a string literal; \<open>message.append(buf, bytes_read)\<close>
  with \<open>bytes_read = 2^64 - 1\<close> reads past the 1024 bytes of \<open>buf\<close>.
\<close>

fun read_loop :: "nat \<Rightarrow> string \<Rightarrow> os_event list \<Rightarrow> (abrupt + string) option" where
  "read_loop size' message [] =
     (if length message < size' then None else Some (Inr message))"
| "read_loop size' message (ev # evs) =
     (if length message < size' then
        (case ev of
           SelectInterrupted \<Rightarrow> read_loop size' message evs
         | SelectFailed \<Rightarrow> Some (Inl Exit)
         | SelectTimeout \<Rightarrow> Some (Inr message)
         | SelectReadable r \<Rightarrow>
             (if bytes_read_of r < 1 then
                Some (Inl (Throw (CString
                  ''SerialException('device reports readiness to read but returned no data (device disconnected?)')'')))
              else
                (case r of
                   ReadError \<Rightarrow> Some (Inl UndefinedBehaviour)
                 | ReadCount bs \<Rightarrow> read_loop size' (message @ stored bs) evs)))
      else Some (Inr message))"

definition SerialImpl_read :: "SerialImpl \<Rightarrow> nat \<Rightarrow> os_event list \<Rightarrow> (abrupt + string) option" where
  "SerialImpl_read p size' evs =
     (if \<not> isOpen' p then Some (Inl (Throw (CString ''PortNotOpenError()'')))
      else read_loop size' [] evs)"

section \<open>The listener: \<open>serial_listener.cc\<close>\<close>

subsection \<open>Filters, handlers and the listener's state\<close>

text \<open>
  A \<open>FilterPtr\<close> is a shared pointer to a \<open>Filter\<close> object; \<open>fid\<close> is the address of
  the object, which is what \<open>std::find\<close> compares. A comparator returns a truth value
  or throws. A callback is a user function, which returns or throws, or the member
  function \<open>SerialListener::default_handler\<close> bound to the listener, which the
  constructor gives to \<open>default_filter\<close>.
\<close>

datatype callback = UserCallback "string \<Rightarrow> thrown option" | BoundDefaultHandler

record Filter =
  fid :: nat
  comparator' :: "string \<Rightarrow> thrown + bool"
  callback' :: callback

text \<open>
  The handlers (\<open>handle_exc\<close>, \<open>warn\<close>, the callbacks of filters and
  \<open>_default_handler\<close>) are called for their effect; the model records each call.
\<close>

datatype event =
  HandleExc string
  | Warn string
  | CallbackInvoked nat string
  | DefaultHandlerInvoked string

text \<open>
  \<open>serial_port'\<close> is the pointer \<open>serial_port_\<close> (\<open>None\<close> is \<open>NULL\<close>);
  \<open>listen_thread\<close> and \<open>callback_thread\<close> tell whether the thread runs;
  \<open>next_filter\<close> is the address the next \<open>new Filter\<close> returns;
  \<open>default_handler'\<close> is \<open>_default_handler\<close>.
\<close>

record SerialListener =
  listening :: bool
  chunk_size' :: nat
  data_buffer :: string
  serial_port' :: "SerialImpl option"
  tokenize :: "string \<Rightarrow> string list"
  filters :: "Filter list"
  callback_queue :: "(Filter \<times> string) list"
  default_filter :: Filter
  default_handler' :: "(string \<Rightarrow> thrown option) option"
  listen_thread :: bool
  callback_thread :: bool
  next_filter :: nat
  trace :: "event list"

definition defaultComparator :: "string \<Rightarrow> thrown + bool" where
  "defaultComparator token = Inr (token = token)"

definition handle_exc :: "string \<Rightarrow> SerialListener \<Rightarrow> SerialListener" where
  "handle_exc what s = s\<lparr>trace := trace s @ [HandleExc what]\<rparr>"

subsection \<open>Starting and stopping\<close>

text \<open>
  \<open>startListening\<close> throws \<open>SerialListenerException\<close>, which \<open>listen\<close> and
  \<open>callback\<close> hand to \<open>handle_exc\<close> as a \<open>std::exception\<close>. The flag and the port
  are stored before the port is tested.
\<close>

definition startListening :: "SerialImpl \<Rightarrow> SerialListener \<Rightarrow> abrupt option \<times> SerialListener" where
  "startListening serial_port s =
     (if listening s then (Some (Throw (StdException ''Already listening.'')), s)
      else
        (let s1 = s\<lparr>listening := True\<rparr>;
             s2 = s1\<lparr>serial_port' := Some serial_port\<rparr>
         in if \<not> isOpen serial_port
            then (Some (Throw (StdException ''Serial port not open.'')), s2)
            else (None, s2\<lparr>listen_thread := True, callback_thread := True\<rparr>)))"

definition removeAllFilters :: "SerialListener \<Rightarrow> SerialListener" where
  "removeAllFilters s = s\<lparr>filters := [], callback_queue := []\<rparr>"

text \<open>
  \<open>stopListening\<close> clears the flag and joins both threads. What the two threads
  still do to the state before they end is the parameter \<open>joined\<close>; nothing is
  assumed about it.
\<close>

definition stopListening :: "(SerialListener \<Rightarrow> SerialListener) \<Rightarrow> SerialListener \<Rightarrow> SerialListener" where
  "stopListening joined s =
     (let s1 = s\<lparr>listening := False\<rparr>;
          s2 = (joined s1)\<lparr>listen_thread := False, callback_thread := False\<rparr>;
          s3 = s2\<lparr>data_buffer := []\<rparr>;
          s4 = s3\<lparr>serial_port' := None\<rparr>
      in removeAllFilters s4)"

subsection \<open>The filter registry\<close>

definition createFilter ::
  "(string \<Rightarrow> thrown + bool) \<Rightarrow> callback \<Rightarrow> SerialListener \<Rightarrow> Filter \<times> SerialListener" where
  "createFilter comparator callback s =
     (let filter_ptr = \<lparr>fid = next_filter s, comparator' = comparator, callback' = callback\<rparr>
      in (filter_ptr, s\<lparr>filters := filters s @ [filter_ptr], next_filter := Suc (next_filter s)\<rparr>))"

text \<open>
  \<open>std::find(filters.begin(), filters.end(), filter_ptr)\<close> gives the position of the
  first pointer equal to \<open>filter_ptr\<close>, or \<open>filters.end()\<close> (the length) when there
  is none. \<open>filters.erase(it)\<close> removes the element at \<open>it\<close>; erasing \<open>end()\<close> is
  undefined behaviour.
\<close>

fun std_find :: "Filter list \<Rightarrow> Filter \<Rightarrow> nat" where
  "std_find [] filter_ptr = 0"
| "std_find (f # fs) filter_ptr =
     (if fid f = fid filter_ptr then 0 else Suc (std_find fs filter_ptr))"

definition erase :: "Filter list \<Rightarrow> nat \<Rightarrow> abrupt + Filter list" where
  "erase fs it = (if it < length fs then Inr (take it fs @ drop (Suc it) fs) else Inl UndefinedBehaviour)"

definition removeFilter :: "Filter \<Rightarrow> SerialListener \<Rightarrow> abrupt option \<times> SerialListener" where
  "removeFilter filter_ptr s =
     (case erase (filters s) (std_find (filters s) filter_ptr) of
        Inl a \<Rightarrow> (Some a, s)
      | Inr fs \<Rightarrow> (None, s\<lparr>filters := fs\<rparr>))"

subsection \<open>The tokenizer\<close>

text \<open>
  Modelled from the spec: the tokenizer is declared in \<open>serial_listener.h\<close>, which is
  not among the sources; only the call \<open>this->tokenize(this->data_buffer, new_tokens)\<close>
  in \<open>listen\<close> and the constructor's \<open>setTokenizer(delimeter_tokenizer("\r"))\<close> are.
  The spec (4.1): a delimiter-based split on a configurable delimiter sequence; the
  final, possibly incomplete fragment after the last delimiter is the remainder; with
  no delimiter present the entire buffer is the remainder and no token is produced.
  The vector that \<open>listen\<close> receives holds the completed tokens followed by the
  remainder as its last element, which is how \<open>filterNewTokens\<close> and \<open>filter\<close> read
  it. The buffer is scanned from the left; an empty delimiter never matches. The
  result is never empty, so the first branch of the \<open>case\<close> below is never taken.
\<close>

function delimeter_tokenizer :: "string \<Rightarrow> string \<Rightarrow> string list" where
  "delimeter_tokenizer delimeter [] = [[]]"
| "delimeter_tokenizer delimeter (c # cs) =
     (if delimeter \<noteq> [] \<and> take (length delimeter) (c # cs) = delimeter
      then [] # delimeter_tokenizer delimeter (drop (length delimeter) (c # cs))
      else (case delimeter_tokenizer delimeter cs of
              [] \<Rightarrow> [[c]]
            | t # ts \<Rightarrow> (c # t) # ts))"
  by pat_completeness auto
termination
  by (relation "measure (\<lambda>(delimeter, data). length data)") auto

subsection \<open>The producer: \<open>listen\<close>\<close>

definition determineAmountToRead :: "SerialListener \<Rightarrow> nat" where
  "determineAmountToRead s = chunk_size' s"

text \<open>
  \<open>readSomeData\<close> reports a null or closed port to \<open>handle_exc\<close> and goes on to
  call \<open>read\<close> on it all the same. \<open>Serial\<close> (\<open>serial.cc\<close>, not among the sources)
  is taken to hand \<open>isOpen\<close> and \<open>read\<close> to its \<open>SerialImpl\<close>. The result is \<open>None\<close>
  when the operating system's answers run out inside \<open>read\<close>.
\<close>

definition readSomeData ::
  "nat \<Rightarrow> os_event list \<Rightarrow> SerialListener \<Rightarrow> ((abrupt + string) \<times> SerialListener) option" where
  "readSomeData this_many evs s =
     (let s1 = (if serial_port' s = None then handle_exc ''Invalid serial port.'' s else s)
      in case serial_port' s1 of
           None \<Rightarrow> Some (Inl UndefinedBehaviour, s1)
         | Some p \<Rightarrow>
             (let s2 = (if \<not> isOpen p then handle_exc ''Serial port not open.'' s1 else s1)
              in case SerialImpl_read p this_many evs of
                   None \<Rightarrow> None
                 | Some r \<Rightarrow> Some (r, s2)))"

text \<open>
  \<open>SerialListener::filter\<close>: the loop over the tokens of one filter. The last element
  of the vector is skipped. A comparator that throws ends the loop at once: there is no
  handler in \<open>filter\<close> or in \<open>filterNewTokens\<close>.
\<close>

fun filter' ::
  "Filter \<Rightarrow> string list \<Rightarrow> (Filter \<times> string) list \<Rightarrow> abrupt option \<times> (Filter \<times> string) list" where
  "filter' f [] q = (None, q)"
| "filter' f [token] q = (None, q)"
| "filter' f (token # tokens) q =
     (case comparator' f token of
        Inl e \<Rightarrow> (Some (Throw e), q)
      | Inr matches \<Rightarrow> filter' f tokens (if matches then q @ [(f, token)] else q))"

text \<open>
  \<open>SerialListener::filterNewTokens\<close>: the loop over the registered filters, then
  \<open>data_buffer = *new_tokens.back()\<close>, which is undefined on an empty vector.
\<close>

fun filters_loop ::
  "Filter list \<Rightarrow> string list \<Rightarrow> (Filter \<times> string) list \<Rightarrow> abrupt option \<times> (Filter \<times> string) list" where
  "filters_loop [] new_tokens q = (None, q)"
| "filters_loop (f # fs) new_tokens q =
     (case filter' f new_tokens q of
        (Some a, q1) \<Rightarrow> (Some a, q1)
      | (None, q1) \<Rightarrow> filters_loop fs new_tokens q1)"

definition filterNewTokens :: "string list \<Rightarrow> SerialListener \<Rightarrow> abrupt option \<times> SerialListener" where
  "filterNewTokens new_tokens s =
     (case filters_loop (filters s) new_tokens (callback_queue s) of
        (Some a, q) \<Rightarrow> (Some a, s\<lparr>callback_queue := q\<rparr>)
      | (None, q) \<Rightarrow>
          (if new_tokens = [] then (Some UndefinedBehaviour, s\<lparr>callback_queue := q\<rparr>)
           else (None, s\<lparr>callback_queue := q, data_buffer := last new_tokens\<rparr>)))"

text \<open>
  The part of the body of the loop of \<open>listen\<close> that follows \<open>readSomeData\<close>, for the
  string \<open>temp\<close> that was read.
\<close>

definition read_cycle :: "string \<Rightarrow> SerialListener \<Rightarrow> abrupt option \<times> SerialListener" where
  "read_cycle temp s =
     (if length temp \<noteq> 0 then
        (let s1 = s\<lparr>data_buffer := data_buffer s @ temp\<rparr>;
             new_tokens = tokenize s1 (data_buffer s1)
         in filterNewTokens new_tokens s1)
      else (None, s))"

text \<open>
  The loop \<open>while (this->listening)\<close> of \<open>listen\<close>. The thread's surroundings are a
  list: before a pass of the loop either another thread has cleared the flag
  (\<open>stopListening\<close>), or the operating system's answers for the \<open>read\<close> of this pass
  are given. The result is \<open>None\<close> when the list runs out while the flag is still set.
\<close>

datatype env = StopRequested | PortActivity "os_event list"

fun listen_while :: "env list \<Rightarrow> SerialListener \<Rightarrow> (abrupt option \<times> SerialListener) option" where
  "listen_while [] s = (if listening s then None else Some (None, s))"
| "listen_while (e # es) s =
     (if listening s then
        (case e of
           StopRequested \<Rightarrow> listen_while es (s\<lparr>listening := False\<rparr>)
         | PortActivity evs \<Rightarrow>
             (case readSomeData (determineAmountToRead s) evs s of
                None \<Rightarrow> None
              | Some (Inl a, s1) \<Rightarrow> Some (Some a, s1)
              | Some (Inr temp, s1) \<Rightarrow>
                  (case read_cycle temp s1 of
                     (Some a, s2) \<Rightarrow> Some (Some a, s2)
                   | (None, s2) \<Rightarrow> listen_while es s2)))
      else Some (None, s))"

text \<open>
  How the thread that runs \<open>listen\<close> ends. The handler \<open>catch (std::exception &e)\<close>
  around the loop hands \<open>e.what()\<close> to \<open>handle_exc\<close> and \<open>listen\<close> returns; a thrown
  string literal is not caught and leaves the thread function, on which
  \<open>boost::thread\<close> calls \<open>std::terminate\<close>; \<open>exit\<close> ends the process.
\<close>

datatype thread_end = ThreadReturned | ProcessTerminated | ProcessExited | BehaviourUndefined

fun listen_catch :: "abrupt option \<Rightarrow> SerialListener \<Rightarrow> thread_end \<times> SerialListener" where
  "listen_catch None s = (ThreadReturned, s)"
| "listen_catch (Some (Throw (StdException what))) s = (ThreadReturned, handle_exc what s)"
| "listen_catch (Some (Throw (CString literal))) s = (ProcessTerminated, s)"
| "listen_catch (Some Exit) s = (ProcessExited, s)"
| "listen_catch (Some UndefinedBehaviour) s = (BehaviourUndefined, s)"

definition listen :: "env list \<Rightarrow> SerialListener \<Rightarrow> (thread_end \<times> SerialListener) option" where
  "listen es s =
     (case listen_while es s of
        None \<Rightarrow> None
      | Some (a, s1) \<Rightarrow> Some (listen_catch a s1))"

text \<open>
  The read cycles of \<open>listen\<close> for a given list of strings read, one pass of the loop
  for each: the first abrupt completion ends the loop.
\<close>

fun read_cycles :: "string list \<Rightarrow> SerialListener \<Rightarrow> abrupt option \<times> SerialListener" where
  "read_cycles [] s = (None, s)"
| "read_cycles (temp # temps) s =
     (case read_cycle temp s of
        (Some a, s1) \<Rightarrow> (Some a, s1)
      | (None, s1) \<Rightarrow> read_cycles temps s1)"

subsection \<open>The consumer: \<open>callback\<close>\<close>

text \<open>
  \<open>SerialListener::default_handler\<close> calls \<open>_default_handler\<close> when it is set.
  Invoking \<open>pair.first->callback_\<close> is recorded, then the callback runs.
\<close>

definition default_handler :: "string \<Rightarrow> SerialListener \<Rightarrow> thrown option \<times> SerialListener" where
  "default_handler token s =
     (case default_handler' s of
        None \<Rightarrow> (None, s)
      | Some h \<Rightarrow> (h token, s\<lparr>trace := trace s @ [DefaultHandlerInvoked token]\<rparr>))"

definition invoke :: "Filter \<Rightarrow> string \<Rightarrow> SerialListener \<Rightarrow> thrown option \<times> SerialListener" where
  "invoke f token s =
     (let s1 = s\<lparr>trace := trace s @ [CallbackInvoked (fid f) token]\<rparr>
      in case callback' f of
           UserCallback cb \<Rightarrow> (cb token, s1)
         | BoundDefaultHandler \<Rightarrow> default_handler token s1)"

text \<open>
  The thread that runs \<open>callback\<close> shares \<open>listening\<close> and \<open>callback_queue\<close> with the
  other threads, so it is modelled statement by statement: the position of the thread
  is before the test of \<open>while (this->listening)\<close>, before
  \<open>timed_wait_and_pop(pair, 10)\<close>, before the inner test \<open>if (this->listening)\<close>, or
  before the call of the callback. \<open>timed_wait_and_pop\<close> gives the oldest entry, or
  fails when the queue has stayed empty. A callback that throws a \<open>std::exception\<close>
  is handed to \<open>handle_exc\<close>; any other thrown object leaves the thread function.
\<close>

datatype position = AtWhile | AtPop | AtIf | AtInvoke | Returned | Terminated

record runner =
  engine :: SerialListener
  at :: position
  pair :: "(Filter \<times> string) option"

definition callback_step :: "runner \<Rightarrow> runner" where
  "callback_step r =
     (case at r of
        AtWhile \<Rightarrow> (if listening (engine r) then r\<lparr>at := AtPop\<rparr> else r\<lparr>at := Returned\<rparr>)
      | AtPop \<Rightarrow>
          (case callback_queue (engine r) of
             [] \<Rightarrow> r\<lparr>at := AtWhile\<rparr>
           | e # q \<Rightarrow> r\<lparr>engine := (engine r)\<lparr>callback_queue := q\<rparr>, pair := Some e, at := AtIf\<rparr>)
      | AtIf \<Rightarrow> (if listening (engine r) then r\<lparr>at := AtInvoke\<rparr> else r\<lparr>at := AtWhile\<rparr>)
      | AtInvoke \<Rightarrow>
          (case pair r of
             None \<Rightarrow> r\<lparr>at := Terminated\<rparr>
           | Some (f, token) \<Rightarrow>
               (case invoke f token (engine r) of
                  (None, s) \<Rightarrow> r\<lparr>engine := s, at := AtWhile\<rparr>
                | (Some (StdException what), s) \<Rightarrow> r\<lparr>engine := handle_exc what s, at := AtWhile\<rparr>
                | (Some (CString literal), s) \<Rightarrow> r\<lparr>engine := s, at := Terminated\<rparr>))
      | Returned \<Rightarrow> r
      | Terminated \<Rightarrow> r)"

text \<open>
  A schedule interleaves the statements of the consumer with what the other threads do
  to the state it shares: \<open>stopListening\<close> clears the flag, the producer pushes an
  entry. While the consumer runs, nothing sets the flag: \<open>startListening\<close> throws when
  it is set, and \<open>stopListening\<close> returns only after the consumer has ended.
\<close>

datatype action = ConsumerStep | FlagCleared | Pushed Filter string

fun act :: "action \<Rightarrow> runner \<Rightarrow> runner" where
  "act ConsumerStep r = callback_step r"
| "act FlagCleared r = r\<lparr>engine := (engine r)\<lparr>listening := False\<rparr>\<rparr>"
| "act (Pushed f token) r =
     r\<lparr>engine := (engine r)\<lparr>callback_queue := callback_queue (engine r) @ [(f, token)]\<rparr>\<rparr>"

fun run :: "action list \<Rightarrow> runner \<Rightarrow> runner" where
  "run [] r = r"
| "run (a # as) r = run as (act a r)"

subsection \<open>The constructor\<close>

definition CR :: char where
  "CR = CHR 0x0D"

definition SerialListener_new :: SerialListener where
  "SerialListener_new =
     \<lparr>listening = False,
      chunk_size' = 5,
      data_buffer = [],
      serial_port' = None,
      tokenize = delimeter_tokenizer [CR],
      filters = [],
      callback_queue = [],
      default_filter = \<lparr>fid = 0, comparator' = defaultComparator, callback' = BoundDefaultHandler\<rparr>,
      default_handler' = None,
      listen_thread = False,
      callback_thread = False,
      next_filter = 1,
      trace = []\<rparr>"

section \<open>Vocabulary of the statements\<close>

text \<open>
  A comparator returns on a token when it does not throw there; \<open>returns_all\<close> says
  so of every filter of a list on every token of a list, \<open>never_throws\<close> of one filter on
  every token.
\<close>

definition returns :: "Filter \<Rightarrow> string \<Rightarrow> bool" where
  "returns f token = (\<not> isl (comparator' f token))"

definition returns_all :: "Filter list \<Rightarrow> string list \<Rightarrow> bool" where
  "returns_all fs tokens = list_all (\<lambda>f. list_all (returns f) tokens) fs"

definition never_throws :: "Filter \<Rightarrow> bool" where
  "never_throws f = (\<forall>token. returns f token)"

text \<open>
  The entries one filter contributes for a list of tokens, in the order of the tokens;
  and the two orders in which the entries of a batch can be laid out. In \<open>filter_major\<close>
  all the entries of the first filter come first; in \<open>spec_token_major\<close>, which
  follows the words of the spec (4.3, step 4), all the entries of the first token come
  first. In both, the last element of the vector is the remainder and gives no entry.
\<close>

definition matching :: "Filter \<Rightarrow> string list \<Rightarrow> (Filter \<times> string) list" where
  "matching f tokens = map (Pair f) [token \<leftarrow> tokens. comparator' f token = Inr True]"

definition filter_major :: "Filter list \<Rightarrow> string list \<Rightarrow> (Filter \<times> string) list" where
  "filter_major fs new_tokens = concat (map (\<lambda>f. matching f (butlast new_tokens)) fs)"

definition spec_token_major :: "Filter list \<Rightarrow> string list \<Rightarrow> (Filter \<times> string) list" where
  "spec_token_major fs new_tokens =
     concat (map (\<lambda>token. map (\<lambda>f. (f, token)) [f \<leftarrow> fs. comparator' f token = Inr True])
                 (butlast new_tokens))"

text \<open>
  An entry of the queue read as the address of its filter and its token; and the tokens
  the queue holds for one filter, oldest first.
\<close>

definition entry_id :: "Filter \<times> string \<Rightarrow> nat \<times> string" where
  "entry_id e = (fid (fst e), snd e)"

definition delivered :: "Filter \<Rightarrow> (Filter \<times> string) list \<Rightarrow> string list" where
  "delivered f q = map snd [e \<leftarrow> q. fid (fst e) = fid f]"

text \<open>
  The callbacks of filters that a trace records, oldest first: the address of the
  filter and the token of each call.
\<close>

fun callbacks :: "event list \<Rightarrow> (nat \<times> string) list" where
  "callbacks [] = []"
| "callbacks (CallbackInvoked a token # tr) = (a, token) # callbacks tr"
| "callbacks (e # tr) = callbacks tr"

text \<open>
  What is observed of a run of \<open>listen\<close>: how the thread ended, the entries of the
  queue, the buffer and the handlers called.
\<close>

definition observed ::
  "(thread_end \<times> SerialListener) option \<Rightarrow>
   (thread_end \<times> (nat \<times> string) list \<times> string \<times> event list) option" where
  "observed r =
     map_option (\<lambda>(e, s). (e, map entry_id (callback_queue s), data_buffer s, trace s)) r"

section \<open>Scenarios\<close>

text \<open>
  Concrete ports, comparators, filters and listeners at which the statements below are
  evaluated. \<open>started\<close> is a new listener after \<open>startListening\<close> on an open port;
  \<open>stopped\<close> is that listener after \<open>stopListening\<close>, the threads having done
  nothing more; \<open>picky\<close> throws on the token \<open>B\<close> and accepts every other token.
\<close>

definition open_port :: SerialImpl where
  "open_port = \<lparr>fd' = 0, isOpen' = True, port' = ''/dev/ttyS0''\<rparr>"

definition closed_port :: SerialImpl where
  "closed_port = \<lparr>fd' = - 1, isOpen' = False, port' = ''/dev/ttyS0''\<rparr>"

definition any_token :: "string \<Rightarrow> thrown + bool" where
  "any_token token = Inr True"

definition picky :: "string \<Rightarrow> thrown + bool" where
  "picky token = (if token = ''B'' then Inl (StdException ''bad predicate'') else Inr True)"

definition quiet :: callback where
  "quiet = UserCallback (\<lambda>token. None)"

definition filter_a :: Filter where
  "filter_a = \<lparr>fid = 1, comparator' = any_token, callback' = quiet\<rparr>"

definition filter_b :: Filter where
  "filter_b = \<lparr>fid = 2, comparator' = any_token, callback' = quiet\<rparr>"

definition filter_picky :: Filter where
  "filter_picky = \<lparr>fid = 3, comparator' = picky, callback' = quiet\<rparr>"

definition started :: SerialListener where
  "started = snd (startListening open_port SerialListener_new)"

definition stopped :: SerialListener where
  "stopped = stopListening (\<lambda>s. s) started"

definition two_filters :: SerialListener where
  "two_filters = snd (createFilter any_token quiet (snd (createFilter any_token quiet started)))"

definition three_filters :: SerialListener where
  "three_filters = started\<lparr>filters := [filter_a, filter_picky, filter_b]\<rparr>"

definition with_default_handler :: SerialListener where
  "with_default_handler = started\<lparr>default_handler' := Some (\<lambda>token. None)\<rparr>"

definition at_loop_head :: runner where
  "at_loop_head =
     \<lparr>engine = started\<lparr>callback_queue := [(filter_a, ''PING'')]\<rparr>, at = AtWhile, pair = None\<rparr>"

definition stopped_before_pop :: runner where
  "stopped_before_pop =
     \<lparr>engine = started\<lparr>listening := False, callback_queue := [(filter_a, ''PING'')]\<rparr>,
      at = AtPop, pair = None\<rparr>"

definition stopped_before_call :: runner where
  "stopped_before_call =
     \<lparr>engine = started\<lparr>listening := False, callback_queue := [(filter_b, ''PONG'')]\<rparr>,
      at = AtInvoke, pair = Some (filter_a, ''PING'')\<rparr>"

section \<open>Stopping clears the registry, the queue and the buffer\<close>

lemma removeAllFilters_fields:
  "filters (removeAllFilters s) = []"
  "callback_queue (removeAllFilters s) = []"
  "data_buffer (removeAllFilters s) = data_buffer s"
  by (simp_all add: removeAllFilters_def)

text \<open>
  Claim C6: in every state of the engine and whatever the two threads do before they
  are joined, after \<open>stopListening\<close> has returned the filter registry is empty, the
  dispatch queue holds no entry and the accumulation buffer is the empty string.
\<close>

theorem stopListening_clears:
  "filters (stopListening joined s) = []
   \<and> callback_queue (stopListening joined s) = []
   \<and> data_buffer (stopListening joined s) = ''''"
  by (simp add: stopListening_def Let_def removeAllFilters_fields)

section \<open>Starting with a closed port\<close>

lemma started_fields:
  "listening started"
  "serial_port' started = Some open_port"
  "chunk_size' started = 5"
  "data_buffer started = []"
  "tokenize started = delimeter_tokenizer [CR]"
  "filters started = []"
  "callback_queue started = []"
  "default_handler' started = None"
  "next_filter started = 1"
  "trace started = []"
  by (simp_all add: started_def startListening_def SerialListener_new_def open_port_def
      isOpen_def Let_def)

text \<open>
  Claim C4: a call of \<open>startListening\<close> that fails with a configuration error
  (already listening, or the port is not open) reports the error to the caller and
  leaves the engine as it was: the listening flag, the stored port, the buffer and the
  registry. The code does not meet it when the port is not open. On a new listener the
  call throws \<open>Serial port not open.\<close>, and by then it has set the listening flag, so
  that a second call with an open port throws \<open>Already listening.\<close>. On a listener
  that was started and stopped, whose port pointer \<open>stopListening\<close> has reset, the
  failed call also leaves the closed port stored. (The constructor leaves
  \<open>serial_port_\<close> uninitialised; \<open>SerialListener_new\<close> has the null pointer there,
  and the statement does not rest on it.)
\<close>

theorem startListening_closed_port_changes_state:
  "fst (startListening closed_port SerialListener_new) = Some (Throw (StdException ''Serial port not open.''))
   \<and> listening SerialListener_new = False
   \<and> listening (snd (startListening closed_port SerialListener_new)) = True
   \<and> fst (startListening open_port (snd (startListening closed_port SerialListener_new)))
       = Some (Throw (StdException ''Already listening.''))
   \<and> listening stopped = False
   \<and> serial_port' stopped = None
   \<and> fst (startListening closed_port stopped) = Some (Throw (StdException ''Serial port not open.''))
   \<and> listening (snd (startListening closed_port stopped)) = True
   \<and> serial_port' (snd (startListening closed_port stopped)) = Some closed_port"
  by (simp add: startListening_def stopped_def stopListening_def removeAllFilters_def
      SerialListener_new_def closed_port_def isOpen_def Let_def)

section \<open>Removing a filter that is not registered\<close>

text \<open>
  Claim C5: \<open>removeFilter\<close> with a handle that is not in the registry (never
  registered, or already removed) is a silent no-op that leaves the registry unchanged.
  The code does not meet it: \<open>std::find\<close> returns \<open>filters.end()\<close> and \<open>erase\<close> is
  called on it, which is undefined behaviour. This is so for a handle that was never
  registered, with the registry empty or not, and for the second removal of a handle
  that \<open>createFilter\<close> returned.
\<close>

theorem removeFilter_absent_undefined:
  "fst (removeFilter filter_a started) = Some UndefinedBehaviour
   \<and> map fid (filters two_filters) = [1, 2] \<and> fid filter_picky = 3
   \<and> fst (removeFilter filter_picky two_filters) = Some UndefinedBehaviour
   \<and> fst (removeFilter (fst (createFilter any_token quiet started))
             (snd (createFilter any_token quiet started))) = None
   \<and> fst (removeFilter (fst (createFilter any_token quiet started))
             (snd (removeFilter (fst (createFilter any_token quiet started))
                                (snd (createFilter any_token quiet started))))) = Some UndefinedBehaviour"
  by (simp add: removeFilter_def createFilter_def erase_def started_fields Let_def
      two_filters_def filter_picky_def)

section \<open>The length of what \<open>read\<close> returns\<close>

text \<open>
  Claim C7: \<open>read(size)\<close> returns at most \<open>size\<close> bytes. The code does not meet it:
  each pass of the loop asks \<open>::read\<close> for 1024 bytes and appends all it got, so with
  ten bytes waiting \<open>read(5)\<close> returns the ten.
\<close>

theorem read_returns_more_than_requested:
  "SerialImpl_read open_port 5 [SelectReadable (ReadCount ''0123456789'')] = Some (Inr ''0123456789'')
   \<and> length ''0123456789'' = 10"
  by (simp add: SerialImpl_read_def open_port_def bytes_read_of_def stored_def)

section \<open>Errors of the byte source while listening\<close>

text \<open>
  Claim C3: every error of the byte source during a read while listening is caught by
  the producer and handed to the exception handler, and never crashes or exits the
  process. The code does not meet it. When the device is gone, \<open>::read\<close> returns no
  byte and \<open>read\<close> throws a string literal; the handler of \<open>listen\<close> catches
  \<open>std::exception\<close> only, so the process is terminated and \<open>handle_exc\<close> is not
  called. When \<open>select\<close> fails, \<open>read\<close> calls \<open>exit\<close>.
\<close>

theorem listen_device_error_ends_process:
  "observed (listen [PortActivity [SelectReadable (ReadCount [])]] started)
     = Some (ProcessTerminated, [], [], [])
   \<and> observed (listen [PortActivity [SelectFailed]] started)
     = Some (ProcessExited, [], [], [])"
  by (simp add: observed_def listen_def started_fields determineAmountToRead_def readSomeData_def
      SerialImpl_read_def open_port_def isOpen_def bytes_read_of_def stored_def Let_def)

section \<open>Tokens that match no filter\<close>

lemma with_default_handler_fields:
  "listening with_default_handler"
  "serial_port' with_default_handler = Some open_port"
  "chunk_size' with_default_handler = 5"
  "data_buffer with_default_handler = []"
  "tokenize with_default_handler = delimeter_tokenizer [CR]"
  "filters with_default_handler = []"
  "callback_queue with_default_handler = []"
  "trace with_default_handler = []"
  by (simp_all add: with_default_handler_def started_fields)

text \<open>
  Claim C8: the default-token handler is invoked with every completed token that
  matches no registered filter. The code does not meet it: \<open>default_filter\<close> is built
  by the constructor and never consulted. With a default handler set and no filter
  registered, the producer completes the token \<open>AB\<close> and enqueues nothing; the
  consumer, run on the state after that read cycle, finds the queue empty and calls no
  handler.
\<close>

theorem unmatched_token_reaches_no_handler:
  "observed
     (listen [PortActivity [SelectReadable (ReadCount (''AB'' @ [CR])), SelectTimeout], StopRequested]
        with_default_handler)
   = Some (ThreadReturned, [], [], [])
   \<and> listening (snd (read_cycle (''AB'' @ [CR]) with_default_handler))
   \<and> callback_queue (snd (read_cycle (''AB'' @ [CR]) with_default_handler)) = []
   \<and> trace (engine (run [ConsumerStep, ConsumerStep, ConsumerStep, ConsumerStep]
        \<lparr>engine = snd (read_cycle (''AB'' @ [CR]) with_default_handler), at = AtWhile, pair = None\<rparr>)) = []"
  by (simp add: observed_def listen_def with_default_handler_fields determineAmountToRead_def readSomeData_def
      SerialImpl_read_def open_port_def isOpen_def bytes_read_of_def stored_def Let_def
      read_cycle_def filterNewTokens_def CR_def callback_step_def)

section \<open>The order of the entries of one batch\<close>

lemma returns_all_iff:
  "returns_all fs tokens \<longleftrightarrow> (\<forall>f\<in>set fs. \<forall>t\<in>set tokens. returns f t)"
  by (simp add: returns_all_def list_all_iff)

lemma matching_simps:
  "matching f [] = []"
  "matching f (t # ts) = (if comparator' f t = Inr True then (f, t) # matching f ts else matching f ts)"
  "matching f (ts @ us) = matching f ts @ matching f us"
  by (simp_all add: matching_def)

lemma filter'_returns:
  "\<forall>t\<in>set (butlast tokens). returns f t \<Longrightarrow>
   filter' f tokens q = (None, q @ matching f (butlast tokens))"
proof (induction f tokens q rule: filter'.induct)
  case (1 f q)
  then show ?case by (simp add: matching_simps)
next
  case (2 f token q)
  then show ?case by (simp add: matching_simps)
next
  case (3 f token v va q)
  from "3.prems" have r: "returns f token" and rest: "\<forall>t\<in>set (butlast (v # va)). returns f t"
    by simp_all
  from r obtain b where b: "comparator' f token = Inr b"
    by (cases "comparator' f token") (auto simp: returns_def)
  show ?case
  proof (cases b)
    case True
    with "3.IH"[OF b rest] b show ?thesis by (simp add: matching_simps)
  next
    case False
    with "3.IH"[OF b rest] b show ?thesis by (simp add: matching_simps)
  qed
qed

lemma filter'_throws:
  "\<forall>u\<in>set ts1. returns f u \<Longrightarrow> comparator' f t = Inl e \<Longrightarrow> ts2 \<noteq> [] \<Longrightarrow>
   filter' f (ts1 @ t # ts2) q = (Some (Throw e), q @ matching f ts1)"
proof (induction ts1 arbitrary: q)
  case Nil
  then obtain v va where "ts2 = v # va" by (cases ts2) auto
  with Nil show ?case by (simp add: matching_simps)
next
  case (Cons u us)
  from Cons.prems(1) obtain b where b: "comparator' f u = Inr b"
    by (cases "comparator' f u") (auto simp: returns_def)
  obtain v va where vs: "us @ t # ts2 = v # va" by (cases "us @ t # ts2") auto
  have "filter' f (u # v # va) q = filter' f (v # va) (if b then q @ [(f, u)] else q)"
    using b by simp
  then have "filter' f ((u # us) @ t # ts2) q = filter' f (us @ t # ts2) (if b then q @ [(f, u)] else q)"
    using vs by simp
  also have "\<dots> = (Some (Throw e), (if b then q @ [(f, u)] else q) @ matching f us)"
    using Cons by simp
  finally show ?case using b by (cases b) (simp_all add: matching_simps)
qed

lemma filters_loop_returns:
  "\<forall>f\<in>set fs. \<forall>t\<in>set (butlast new_tokens). returns f t \<Longrightarrow>
   filters_loop fs new_tokens q = (None, q @ filter_major fs new_tokens)"
proof (induction fs arbitrary: q)
  case Nil
  then show ?case by (simp add: filter_major_def)
next
  case (Cons f fs)
  then have "filter' f new_tokens q = (None, q @ matching f (butlast new_tokens))"
    by (simp add: filter'_returns)
  moreover have "filters_loop fs new_tokens (q @ matching f (butlast new_tokens)) =
      (None, (q @ matching f (butlast new_tokens)) @ filter_major fs new_tokens)"
    using Cons by simp
  ultimately show ?case by (simp add: filter_major_def)
qed

lemma filters_loop_throws:
  assumes "\<forall>g\<in>set fs1. \<forall>u\<in>set (butlast new_tokens). returns g u"
    and "new_tokens = ts1 @ t # ts2" and "ts2 \<noteq> []"
    and "\<forall>u\<in>set ts1. returns f u" and "comparator' f t = Inl e"
  shows "filters_loop (fs1 @ f # fs2) new_tokens q =
     (Some (Throw e), q @ filter_major fs1 new_tokens @ matching f ts1)"
  using assms(1)
proof (induction fs1 arbitrary: q)
  case Nil
  have "filter' f new_tokens q = (Some (Throw e), q @ matching f ts1)"
    unfolding assms(2) using assms(4,5,3) by (rule filter'_throws)
  then show ?case by (simp add: filter_major_def)
next
  case (Cons g gs)
  then have "filter' g new_tokens q = (None, q @ matching g (butlast new_tokens))"
    by (simp add: filter'_returns)
  moreover have "filters_loop (gs @ f # fs2) new_tokens (q @ matching g (butlast new_tokens)) =
      (Some (Throw e), (q @ matching g (butlast new_tokens)) @ filter_major gs new_tokens @ matching f ts1)"
    using Cons by simp
  ultimately show ?case by (simp add: filter_major_def)
qed

lemma filterNewTokens_returns:
  assumes "\<forall>f\<in>set (filters s). \<forall>t\<in>set (butlast new_tokens). returns f t"
  shows "filterNewTokens new_tokens s =
     (if new_tokens = []
      then (Some UndefinedBehaviour,
            s\<lparr>callback_queue := callback_queue s @ filter_major (filters s) new_tokens\<rparr>)
      else (None, s\<lparr>callback_queue := callback_queue s @ filter_major (filters s) new_tokens,
                     data_buffer := last new_tokens\<rparr>))"
  using filters_loop_returns[OF assms, of "callback_queue s"]
  by (simp add: filterNewTokens_def)

lemma filterNewTokens_throws:
  assumes "filters s = fs1 @ f # fs2"
    and "\<forall>g\<in>set fs1. \<forall>u\<in>set (butlast new_tokens). returns g u"
    and "new_tokens = ts1 @ t # ts2" and "ts2 \<noteq> []"
    and "\<forall>u\<in>set ts1. returns f u" and "comparator' f t = Inl e"
  shows "filterNewTokens new_tokens s =
     (Some (Throw e),
      s\<lparr>callback_queue := callback_queue s @ filter_major fs1 new_tokens @ matching f ts1\<rparr>)"
  using filters_loop_throws[OF assms(2-6), of fs2 "callback_queue s"] assms(1)
  by (simp add: filterNewTokens_def)

lemma two_filters_fields:
  "filters two_filters = [filter_a, filter_b]"
  "callback_queue two_filters = []"
  by (simp_all add: two_filters_def createFilter_def started_fields filter_a_def filter_b_def Let_def)

lemma returns_any_token: "returns filter_a token" "returns filter_b token"
  by (simp_all add: returns_def filter_a_def filter_b_def any_token_def)

text \<open>
  Claim C1 says that the entries of one batch are enqueued token by token: every match
  of token \<open>i\<close> before any match of token \<open>i+1\<close>. The code lays them out filter by
  filter. With two filters that accept every token and the batch \<open>A\<close>, \<open>B\<close> (and an
  empty remainder), the entry of the first filter for \<open>B\<close> is enqueued before the entry
  of the second filter for \<open>A\<close>.
\<close>

theorem filterNewTokens_not_token_major:
  "map entry_id (callback_queue (snd (filterNewTokens [''A'', ''B'', []] two_filters)))
     = [(1, ''A''), (1, ''B''), (2, ''A''), (2, ''B'')]
   \<and> map entry_id (callback_queue two_filters @ spec_token_major (filters two_filters) [''A'', ''B'', []])
     = [(1, ''A''), (2, ''A''), (1, ''B''), (2, ''B'')]
   \<and> callback_queue (snd (filterNewTokens [''A'', ''B'', []] two_filters))
     \<noteq> callback_queue two_filters @ spec_token_major (filters two_filters) [''A'', ''B'', []]"
proof -
  have q: "map entry_id (callback_queue (snd (filterNewTokens [''A'', ''B'', []] two_filters)))
     = [(1, ''A''), (1, ''B''), (2, ''A''), (2, ''B'')]"
    by (simp add: filterNewTokens_def two_filters_fields filter_a_def filter_b_def any_token_def
        entry_id_def)
  have m: "map entry_id (callback_queue two_filters @ spec_token_major (filters two_filters) [''A'', ''B'', []])
     = [(1, ''A''), (2, ''A''), (1, ''B''), (2, ''B'')]"
    by (simp add: spec_token_major_def two_filters_fields filter_a_def filter_b_def any_token_def
        entry_id_def)
  have "callback_queue (snd (filterNewTokens [''A'', ''B'', []] two_filters))
     \<noteq> callback_queue two_filters @ spec_token_major (filters two_filters) [''A'', ''B'', []]"
  proof
    assume eq: "callback_queue (snd (filterNewTokens [''A'', ''B'', []] two_filters))
       = callback_queue two_filters @ spec_token_major (filters two_filters) [''A'', ''B'', []]"
    have "map entry_id (callback_queue (snd (filterNewTokens [''A'', ''B'', []] two_filters)))
       = map entry_id (callback_queue two_filters @ spec_token_major (filters two_filters) [''A'', ''B'', []])"
      by (simp only: eq)
    with q m show False by simp
  qed
  with q m show ?thesis by blast
qed

text \<open>
  Claim C1, amended: for every batch and every registry whose comparators return on
  the completed tokens of the batch, \<open>filterNewTokens\<close> appends the entries filter by
  filter: for each registered filter in registration order, its matches in the order
  of the tokens. So the entries of one token stand in registration order and the
  entries of one filter in token order, and an entry of an earlier filter for a later
  token precedes the entries of later filters for earlier tokens.
\<close>

theorem filterNewTokens_filter_major:
  "returns_all (filters s) (butlast new_tokens) \<Longrightarrow>
   callback_queue (snd (filterNewTokens new_tokens s)) =
     callback_queue s @ filter_major (filters s) new_tokens"
  by (simp add: filterNewTokens_returns returns_all_iff)

theorem filterNewTokens_filter_major_witness:
  "returns_all (filters two_filters) (butlast [''A'', ''B'', []])
   \<and> callback_queue (snd (filterNewTokens [''A'', ''B'', []] two_filters)) =
       callback_queue two_filters @ filter_major (filters two_filters) [''A'', ''B'', []]
   \<and> map entry_id (filter_major (filters two_filters) [''A'', ''B'', []])
       = [(1, ''A''), (1, ''B''), (2, ''A''), (2, ''B'')]"
proof -
  have h: "returns_all (filters two_filters) (butlast [''A'', ''B'', []])"
    by (simp add: returns_all_def two_filters_fields returns_any_token)
  have "map entry_id (filter_major (filters two_filters) [''A'', ''B'', []])
       = [(1, ''A''), (1, ''B''), (2, ''A''), (2, ''B'')]"
    by (simp add: filter_major_def matching_def two_filters_fields filter_a_def filter_b_def
        any_token_def entry_id_def)
  with h filterNewTokens_filter_major[OF h] show ?thesis by simp
qed

section \<open>A predicate that throws\<close>

lemma three_filters_fields:
  "listening three_filters"
  "serial_port' three_filters = Some open_port"
  "chunk_size' three_filters = 5"
  "data_buffer three_filters = []"
  "tokenize three_filters = delimeter_tokenizer [CR]"
  "filters three_filters = [filter_a, filter_picky, filter_b]"
  "callback_queue three_filters = []"
  "trace three_filters = []"
  by (simp_all add: three_filters_def started_fields)

lemma read_A_B:
  "SerialImpl_read open_port 5 [SelectReadable (ReadCount (''A'' @ [CR] @ ''B'' @ [CR])), SelectTimeout]
     = Some (Inr (''A'' @ [CR] @ ''B'' @ [CR]))"
  by (simp add: SerialImpl_read_def open_port_def bytes_read_of_def stored_def)

lemma tokenizer_A_B:
  "delimeter_tokenizer [CR] ([] @ ''A'' @ [CR] @ ''B'' @ [CR]) = [''A''] @ ''B'' # [[]]"
  by (simp add: CR_def)

text \<open>
  Claim C2 says that a predicate which throws on a token counts as a non-match, that
  the error goes to the warning handler, and that the sweep goes on with the remaining
  filters. The code has no handler in the sweep. With the filters 1 (accepts every
  token), 3 (throws on \<open>B\<close>) and 2 (accepts every token) registered in this order and
  the tokens \<open>A\<close>, \<open>B\<close> read, filter 2 is never evaluated and gets no entry; the error
  is handed to \<open>handle_exc\<close>, and nothing to \<open>warn\<close>; \<open>listen\<close> returns, so that the
  token \<open>C\<close> of the next read is never processed; the buffer keeps the bytes read.
\<close>

theorem listen_predicate_error_aborts_sweep:
  "observed
     (listen [PortActivity [SelectReadable (ReadCount (''A'' @ [CR] @ ''B'' @ [CR])), SelectTimeout],
              PortActivity [SelectReadable (ReadCount (''C'' @ [CR])), SelectTimeout]]
        three_filters)
   = Some (ThreadReturned,
           [(1, ''A''), (1, ''B''), (3, ''A'')],
           ''A'' @ [CR] @ ''B'' @ [CR],
           [HandleExc ''bad predicate''])"
  by (simp add: observed_def listen_def three_filters_fields determineAmountToRead_def readSomeData_def
      SerialImpl_read_def open_port_def isOpen_def bytes_read_of_def stored_def Let_def
      read_cycle_def filterNewTokens_def CR_def filter_a_def filter_b_def filter_picky_def
      any_token_def picky_def entry_id_def handle_exc_def)

text \<open>
  Claim C2, amended: when, in the sweep of one batch, the predicate of a registered
  filter throws a \<open>std::exception\<close> on a completed token, the predicates evaluated
  before it having returned, the sweep ends there: the queue has gained the matches
  of the filters registered before that filter and the matches of that filter on the
  tokens before that token, and nothing else; no later token and no later filter is
  evaluated; the buffer keeps all the bytes read and is not cut back to the remainder.
  The handler of \<open>listen\<close> hands the text of the exception to the exception handler
  (not to the warning handler), and \<open>listen\<close> returns whatever the port would still
  deliver: the producer's loop has ended.
\<close>

theorem listen_predicate_throws:
  assumes "listening s"
    and "serial_port' s = Some p" and "isOpen p"
    and "SerialImpl_read p (chunk_size' s) evs = Some (Inr temp)" and "temp \<noteq> []"
    and "tokenize s (data_buffer s @ temp) = ts1 @ t # ts2" and "ts2 \<noteq> []"
    and "filters s = fs1 @ f # fs2"
    and "returns_all fs1 (butlast (ts1 @ t # ts2))"
    and "list_all (returns f) ts1"
    and "comparator' f t = Inl (StdException what)"
  shows "listen (PortActivity evs # es) s =
     Some (ThreadReturned,
           handle_exc what
             (s\<lparr>data_buffer := data_buffer s @ temp,
                callback_queue := callback_queue s @ filter_major fs1 (ts1 @ t # ts2) @ matching f ts1\<rparr>))"
proof -
  let ?s1 = "s\<lparr>data_buffer := data_buffer s @ temp\<rparr>"
  have rd: "readSomeData (determineAmountToRead s) evs s = Some (Inr temp, s)"
    using assms(2,3,4) by (simp add: readSomeData_def determineAmountToRead_def)
  have before: "\<forall>g\<in>set fs1. \<forall>u\<in>set (butlast (ts1 @ t # ts2)). returns g u"
    using assms(9) by (simp only: returns_all_iff)
  have own: "\<forall>u\<in>set ts1. returns f u"
    using assms(10) by (simp only: list_all_iff)
  have "filterNewTokens (ts1 @ t # ts2) ?s1 =
     (Some (Throw (StdException what)),
      ?s1\<lparr>callback_queue := callback_queue ?s1 @ filter_major fs1 (ts1 @ t # ts2) @ matching f ts1\<rparr>)"
    by (rule filterNewTokens_throws[where ?fs2.0 = fs2 and ?ts2.0 = ts2 and t = t])
       (use assms(7,8,11) before own in simp_all)
  then have "read_cycle temp s =
     (Some (Throw (StdException what)),
      s\<lparr>data_buffer := data_buffer s @ temp,
        callback_queue := callback_queue s @ filter_major fs1 (ts1 @ t # ts2) @ matching f ts1\<rparr>)"
    using assms(5,6) by (simp add: read_cycle_def Let_def)
  then show ?thesis
    using assms(1) rd by (simp add: listen_def)
qed

theorem listen_predicate_throws_witness:
  "listening three_filters
   \<and> serial_port' three_filters = Some open_port \<and> isOpen open_port
   \<and> SerialImpl_read open_port (chunk_size' three_filters)
        [SelectReadable (ReadCount (''A'' @ [CR] @ ''B'' @ [CR])), SelectTimeout]
        = Some (Inr (''A'' @ [CR] @ ''B'' @ [CR]))
   \<and> ''A'' @ [CR] @ ''B'' @ [CR] \<noteq> []
   \<and> tokenize three_filters (data_buffer three_filters @ ''A'' @ [CR] @ ''B'' @ [CR]) = [''A''] @ ''B'' # [[]]
   \<and> [[]] \<noteq> ([] :: string list)
   \<and> filters three_filters = [filter_a] @ filter_picky # [filter_b]
   \<and> returns_all [filter_a] (butlast ([''A''] @ ''B'' # [[]]))
   \<and> list_all (returns filter_picky) [''A'']
   \<and> comparator' filter_picky ''B'' = Inl (StdException ''bad predicate'')
   \<and> listen (PortActivity [SelectReadable (ReadCount (''A'' @ [CR] @ ''B'' @ [CR])), SelectTimeout]
              # [PortActivity [SelectReadable (ReadCount (''C'' @ [CR])), SelectTimeout]]) three_filters =
       Some (ThreadReturned,
             handle_exc ''bad predicate''
               (three_filters\<lparr>data_buffer := data_buffer three_filters @ ''A'' @ [CR] @ ''B'' @ [CR],
                  callback_queue := callback_queue three_filters
                    @ filter_major [filter_a] ([''A''] @ ''B'' # [[]]) @ matching filter_picky [''A'']\<rparr>))"
proof -
  have h1: "listening three_filters"
    and h2: "serial_port' three_filters = Some open_port"
    and h8: "filters three_filters = [filter_a] @ filter_picky # [filter_b]"
    by (simp_all add: three_filters_fields)
  have h3: "isOpen open_port"
    by (simp add: isOpen_def open_port_def)
  have h4: "SerialImpl_read open_port (chunk_size' three_filters)
        [SelectReadable (ReadCount (''A'' @ [CR] @ ''B'' @ [CR])), SelectTimeout]
        = Some (Inr (''A'' @ [CR] @ ''B'' @ [CR]))"
    by (simp only: three_filters_fields read_A_B)
  have h5: "''A'' @ [CR] @ ''B'' @ [CR] \<noteq> []"
    by simp
  have h6: "tokenize three_filters (data_buffer three_filters @ ''A'' @ [CR] @ ''B'' @ [CR])
      = [''A''] @ ''B'' # [[]]"
    by (simp only: three_filters_fields tokenizer_A_B)
  have h7: "[[]] \<noteq> ([] :: string list)"
    by simp
  have h9: "returns_all [filter_a] (butlast ([''A''] @ ''B'' # [[]]))"
    by (simp add: returns_all_def returns_any_token)
  have h10: "list_all (returns filter_picky) [''A'']"
    by (simp add: returns_def filter_picky_def picky_def)
  have h11: "comparator' filter_picky ''B'' = Inl (StdException ''bad predicate'')"
    by (simp add: filter_picky_def picky_def)
  note concl = listen_predicate_throws[OF h1 h2 h3 h4 h5 h6 h7 h8 h9 h10 h11,
      of "[PortActivity [SelectReadable (ReadCount (''C'' @ [CR])), SelectTimeout]]"]
  from h1 h2 h3 h4 h5 h6 h7 h8 h9 h10 h11 concl show ?thesis
    by (intro conjI)
qed

section \<open>The tokenizer and the read cycles\<close>

lemma take_whole_length: "take (length d) xs = d \<Longrightarrow> length d \<le> length xs"
proof -
  assume a: "take (length d) xs = d"
  have "length (take (length d) xs) = min (length d) (length xs)" by simp
  with a show ?thesis by simp
qed

lemma take_append_le: "n \<le> length xs \<Longrightarrow> take n (xs @ y) = take n xs"
  by simp

lemma drop_append_le: "n \<le> length xs \<Longrightarrow> drop n (xs @ y) = drop n xs @ y"
  by simp

lemma tokenizer_nonempty: "delimeter_tokenizer d x \<noteq> []"
  by (induction d x rule: delimeter_tokenizer.induct) (auto split: list.splits)

text \<open>More than one element means a delimiter was found, so the data is as long as it.\<close>

lemma tokenizer_found: "1 < length (delimeter_tokenizer d x) \<Longrightarrow> length d \<le> length x"
proof (induction d x rule: delimeter_tokenizer.induct)
  case (1 d)
  then show ?case by simp
next
  case (2 d c cs)
  show ?case
  proof (cases "d \<noteq> [] \<and> take (length d) (c # cs) = d")
    case True
    then show ?thesis using take_whole_length by blast
  next
    case False
    with 2 show ?thesis by (auto split: list.splits)
  qed
qed

text \<open>With no delimiter found, the one element is the whole data.\<close>

lemma tokenizer_single: "delimeter_tokenizer d x = [t] \<Longrightarrow> t = x"
proof (induction d x arbitrary: t rule: delimeter_tokenizer.induct)
  case (1 d)
  then show ?case by simp
next
  case (2 d c cs)
  show ?case
  proof (cases "d \<noteq> [] \<and> take (length d) (c # cs) = d")
    case True
    with 2 tokenizer_nonempty[of d "drop (length d) (c # cs)"] show ?thesis by simp
  next
    case False
    with 2 show ?thesis by (auto simp: tokenizer_nonempty split: list.splits)
  qed
qed

lemma tokenizer_match:
  "d \<noteq> [] \<Longrightarrow> take (length d) (c # cs) = d \<Longrightarrow>
   delimeter_tokenizer d (c # cs) = [] # delimeter_tokenizer d (drop (length d) (c # cs))"
  by simp

lemma tokenizer_no_match:
  "\<not> (d \<noteq> [] \<and> take (length d) (c # cs) = d) \<Longrightarrow> delimeter_tokenizer d cs = t # ts \<Longrightarrow>
   delimeter_tokenizer d (c # cs) = (c # t) # ts"
  by auto

text \<open>
  Splitting \<open>x @ y\<close> gives the completed tokens of \<open>x\<close>, then the split of the
  remainder of \<open>x\<close> followed by \<open>y\<close>.
\<close>

lemma tokenizer_append:
  "delimeter_tokenizer d (x @ y) =
     butlast (delimeter_tokenizer d x) @ delimeter_tokenizer d (last (delimeter_tokenizer d x) @ y)"
proof (induction d x rule: delimeter_tokenizer.induct)
  case (1 d)
  then show ?case by simp
next
  case (2 d c cs)
  show ?case
  proof (cases "d \<noteq> [] \<and> take (length d) (c # cs) = d")
    case True
    define R where "R = delimeter_tokenizer d (drop (length d) (c # cs))"
    have Rne: "R \<noteq> []" unfolding R_def by (rule tokenizer_nonempty)
    have len: "length d \<le> length (c # cs)"
      using True take_whole_length by blast
    have "take (length d) ((c # cs) @ y) = take (length d) (c # cs)"
      using len by (rule take_append_le)
    then have tk: "take (length d) (c # (cs @ y)) = d"
      using True by simp
    have dr: "drop (length d) (c # (cs @ y)) = drop (length d) (c # cs) @ y"
      using drop_append_le[OF len, of y] by simp
    have ih: "delimeter_tokenizer d (drop (length d) (c # cs) @ y) =
       butlast R @ delimeter_tokenizer d (last R @ y)"
      unfolding R_def using 2(1) True by blast
    have m: "delimeter_tokenizer d (c # (cs @ y)) =
       [] # delimeter_tokenizer d (drop (length d) (c # (cs @ y)))"
      using tokenizer_match[OF _ tk] True by blast
    have lhs: "delimeter_tokenizer d (c # (cs @ y)) = [] # butlast R @ delimeter_tokenizer d (last R @ y)"
      by (simp only: m dr ih)
    have whole: "delimeter_tokenizer d (c # cs) = [] # R"
      unfolding R_def using tokenizer_match[of d c cs] True by blast
    have bl: "butlast ([] # R) = [] # butlast R" and la: "last ([] # R) = last R"
      using Rne by simp_all
    show ?thesis
      by (simp only: lhs whole append_Cons bl la)
  next
    case False
    obtain t ts where tts: "delimeter_tokenizer d cs = t # ts"
      using tokenizer_nonempty[of d cs] by (cases "delimeter_tokenizer d cs") auto
    have whole: "delimeter_tokenizer d (c # cs) = (c # t) # ts"
      using False tts by (rule tokenizer_no_match)
    show ?thesis
    proof (cases ts)
      case Nil
      then have "t = cs" using tts tokenizer_single by blast
      then show ?thesis using whole Nil by (simp del: delimeter_tokenizer.simps)
    next
      case (Cons u us)
      then have "1 < length (delimeter_tokenizer d cs)" using tts by simp
      then have len: "length d \<le> length cs" by (rule tokenizer_found)
      have nomatch: "\<not> (d \<noteq> [] \<and> take (length d) (c # (cs @ y)) = d)"
      proof
        assume a: "d \<noteq> [] \<and> take (length d) (c # (cs @ y)) = d"
        have "length d \<le> length (c # cs)" using len by simp
        then have "take (length d) ((c # cs) @ y) = take (length d) (c # cs)"
          by (rule take_append_le)
        with a False show False by simp
      qed
      have ih: "delimeter_tokenizer d (cs @ y) =
         butlast (delimeter_tokenizer d cs) @ delimeter_tokenizer d (last (delimeter_tokenizer d cs) @ y)"
        using 2(2) False by blast
      have "delimeter_tokenizer d (cs @ y) = t # butlast ts @ delimeter_tokenizer d (last ts @ y)"
        using ih tts Cons by (simp del: delimeter_tokenizer.simps)
      then have "delimeter_tokenizer d (c # (cs @ y)) =
          (c # t) # butlast ts @ delimeter_tokenizer d (last ts @ y)"
        using nomatch by (rule tokenizer_no_match[rotated])
      then show ?thesis
        using whole Cons by (simp del: delimeter_tokenizer.simps)
    qed
  qed
qed

text \<open>The remainder holds no delimiter: splitting it again gives it back.\<close>

lemma tokenizer_remainder:
  "delimeter_tokenizer d (last (delimeter_tokenizer d x)) = [last (delimeter_tokenizer d x)]"
proof -
  have "delimeter_tokenizer d x =
     butlast (delimeter_tokenizer d x) @ delimeter_tokenizer d (last (delimeter_tokenizer d x))"
    using tokenizer_append[of d x "[]"] by simp
  moreover have "delimeter_tokenizer d x =
     butlast (delimeter_tokenizer d x) @ [last (delimeter_tokenizer d x)]"
    using tokenizer_nonempty[of d x] by simp
  ultimately show ?thesis by (metis same_append_eq)
qed

lemma delivered_simps:
  "delivered f [] = []"
  "delivered f (q @ r) = delivered f q @ delivered f r"
  by (simp_all add: delivered_def)

lemma delivered_matching:
  "delivered f (matching g ts) =
     (if fid g = fid f then [t \<leftarrow> ts. comparator' g t = Inr True] else [])"
  by (induction ts) (auto simp: delivered_def matching_simps(1,2))

lemma delivered_absent:
  "fid f \<notin> fid ` set fs \<Longrightarrow> delivered f (filter_major fs new_tokens) = []"
  by (induction fs) (auto simp: filter_major_def delivered_simps delivered_matching)

text \<open>
  Where the registered filters have distinct addresses, the tokens a batch adds to the
  queue for a registered filter are the completed tokens it accepts, in their order.
\<close>

lemma delivered_filter_major:
  "distinct (map fid fs) \<Longrightarrow> f \<in> set fs \<Longrightarrow>
   delivered f (filter_major fs new_tokens) = [t \<leftarrow> butlast new_tokens. comparator' f t = Inr True]"
proof (induction fs)
  case Nil
  then show ?case by simp
next
  case (Cons g gs)
  have split: "filter_major (g # gs) new_tokens = matching g (butlast new_tokens) @ filter_major gs new_tokens"
    by (simp add: filter_major_def)
  show ?case
  proof (cases "f = g")
    case True
    with Cons.prems have "fid f \<notin> fid ` set gs" by simp
    then have "delivered f (filter_major gs new_tokens) = []" by (rule delivered_absent)
    with True show ?thesis by (simp add: split delivered_simps delivered_matching)
  next
    case False
    with Cons.prems have mem: "f \<in> set gs" and d: "distinct (map fid gs)" and "fid g \<notin> fid ` set gs"
      by simp_all
    then have "fid g \<noteq> fid f" by auto
    with Cons.IH[OF d mem] show ?thesis by (simp add: split delivered_simps delivered_matching)
  qed
qed

lemma read_cycle_returns:
  assumes "tokenize s = delimeter_tokenizer d"
    and "\<forall>g\<in>set (filters s). \<forall>t. returns g t"
    and "temp \<noteq> []"
  shows "read_cycle temp s =
     (None, s\<lparr>data_buffer := last (delimeter_tokenizer d (data_buffer s @ temp)),
              callback_queue := callback_queue s @
                filter_major (filters s) (delimeter_tokenizer d (data_buffer s @ temp))\<rparr>)"
proof -
  let ?s1 = "s\<lparr>data_buffer := data_buffer s @ temp\<rparr>"
  let ?toks = "delimeter_tokenizer d (data_buffer s @ temp)"
  have "\<forall>f\<in>set (filters ?s1). \<forall>t\<in>set (butlast ?toks). returns f t"
    using assms(2) by simp
  from filterNewTokens_returns[OF this] tokenizer_nonempty[of d "data_buffer s @ temp"]
  show ?thesis
    using assms(1,3) by (simp add: read_cycle_def Let_def)
qed

lemma read_cycles_invariant:
  assumes "tokenize s = delimeter_tokenizer d"
    and "delimeter_tokenizer d (data_buffer s) = [data_buffer s]"
    and "\<forall>g\<in>set (filters s). \<forall>t. returns g t"
    and "distinct (map fid (filters s))"
    and "f \<in> set (filters s)"
  shows "fst (read_cycles chunks s) = None
     \<and> data_buffer (snd (read_cycles chunks s)) = last (delimeter_tokenizer d (data_buffer s @ concat chunks))
     \<and> delivered f (callback_queue (snd (read_cycles chunks s))) =
         delivered f (callback_queue s) @
         [t \<leftarrow> butlast (delimeter_tokenizer d (data_buffer s @ concat chunks)). comparator' f t = Inr True]"
  using assms
proof (induction chunks arbitrary: s)
  case Nil
  then show ?case by simp
next
  case (Cons c cs)
  show ?case
  proof (cases "c = []")
    case True
    then have "read_cycles (c # cs) s = read_cycles cs s"
      by (simp add: read_cycle_def)
    with Cons.IH[OF Cons.prems] True show ?thesis by simp
  next
    case False
    let ?toks = "delimeter_tokenizer d (data_buffer s @ c)"
    let ?s1 = "s\<lparr>data_buffer := last ?toks,
                  callback_queue := callback_queue s @ filter_major (filters s) ?toks\<rparr>"
    have rc: "read_cycle c s = (None, ?s1)"
      using Cons.prems(1,3) False by (rule read_cycle_returns)
    then have step: "read_cycles (c # cs) s = read_cycles cs ?s1" by simp
    have ih: "fst (read_cycles cs ?s1) = None
       \<and> data_buffer (snd (read_cycles cs ?s1)) = last (delimeter_tokenizer d (data_buffer ?s1 @ concat cs))
       \<and> delivered f (callback_queue (snd (read_cycles cs ?s1))) =
           delivered f (callback_queue ?s1) @
           [t \<leftarrow> butlast (delimeter_tokenizer d (data_buffer ?s1 @ concat cs)). comparator' f t = Inr True]"
      by (rule Cons.IH) (use Cons.prems in \<open>simp_all add: tokenizer_remainder\<close>)
    let ?rest = "delimeter_tokenizer d (last ?toks @ concat cs)"
    have whole: "delimeter_tokenizer d (data_buffer s @ concat (c # cs)) = butlast ?toks @ ?rest"
      using tokenizer_append[of d "data_buffer s @ c" "concat cs"] by simp
    have ne: "?rest \<noteq> []" by (rule tokenizer_nonempty)
    have l: "last (butlast ?toks @ ?rest) = last ?rest" using ne by simp
    have b: "butlast (butlast ?toks @ ?rest) = butlast ?toks @ butlast ?rest"
      using ne by (simp add: butlast_append)
    have dl: "delivered f (filter_major (filters s) ?toks) = [t \<leftarrow> butlast ?toks. comparator' f t = Inr True]"
      using Cons.prems(4,5) by (rule delivered_filter_major)
    show ?thesis
      using ih by (simp only: step whole l b) (simp add: delivered_simps dl)
  qed
qed

lemma read_cycle_frame:
  "read_cycle temp s = (a, s1) \<Longrightarrow>
   listening s1 = listening s \<and> serial_port' s1 = serial_port' s \<and> chunk_size' s1 = chunk_size' s"
  by (auto simp: read_cycle_def filterNewTokens_def Let_def split: if_splits prod.splits option.splits)

text \<open>
  The loop of \<open>listen\<close> on an open port whose reads deliver the strings \<open>temps\<close>, one
  for each pass, and which is then stopped, is \<open>read_cycles\<close> on these strings.
\<close>

lemma listen_while_read_cycles:
  assumes "list_all2 (\<lambda>evs temp. SerialImpl_read p n evs = Some (Inr temp)) evss temps"
    and "listening s" and "serial_port' s = Some p" and "isOpen p" and "chunk_size' s = n"
  shows "listen_while (map PortActivity evss @ [StopRequested]) s =
     Some (case read_cycles temps s of
             (None, s1) \<Rightarrow> (None, s1\<lparr>listening := False\<rparr>)
           | (Some a, s1) \<Rightarrow> (Some a, s1))"
  using assms
proof (induction arbitrary: s rule: list_all2_induct)
  case Nil
  then show ?case by simp
next
  case (Cons evs evss temp temps)
  have rd: "readSomeData (determineAmountToRead s) evs s = Some (Inr temp, s)"
    using Cons.hyps(1) Cons.prems by (simp add: readSomeData_def determineAmountToRead_def)
  obtain a s1 where rc: "read_cycle temp s = (a, s1)"
    by (cases "read_cycle temp s") auto
  show ?case
  proof (cases a)
    case None
    from read_cycle_frame[OF rc] Cons.prems
    have "listening s1" "serial_port' s1 = Some p" "chunk_size' s1 = n" by simp_all
    from Cons.IH[OF this(1,2) Cons.prems(3) this(3)] rd rc None Cons.prems(1)
    show ?thesis by simp
  next
    case (Some e)
    with rd rc Cons.prems(1) show ?thesis by simp
  qed
qed

lemma two_filters_more:
  "tokenize two_filters = delimeter_tokenizer [CR]"
  "data_buffer two_filters = []"
  by (simp_all add: two_filters_def createFilter_def started_fields Let_def)

lemma never_throws_any_token: "never_throws filter_a" "never_throws filter_b"
  by (simp_all add: never_throws_def returns_any_token)

lemma tokenizer_AB_CDEF:
  "delimeter_tokenizer [CR] (concat [''AB'' @ [CR] @ ''CD'', ''EF'' @ [CR]]) = [''AB'', ''CDEF'', []]"
  by (simp add: CR_def)

text \<open>
  Claim C9: for every byte sequence and every partition of it into chunks, feeding the
  chunks through the read cycle of the listener one at a time (the chunk is appended
  to the buffer, the buffer is tokenized, the remainder is kept) yields the same
  sequence of completed tokens as tokenizing the concatenation at once. The listener
  starts with an empty buffer and the delimiter tokenizer for any delimiter \<open>d\<close>; the
  registered filters have distinct addresses and predicates that never throw. Then no
  cycle ends abruptly, the buffer ends as the remainder of the whole input, and the
  tokens enqueued for any registered filter \<open>f\<close> are the completed tokens of the whole
  input that \<open>f\<close> accepts, in their order: for a filter that accepts every token, the
  completed tokens of the whole input themselves. A chunk may be empty; it is skipped.
  By \<open>listen_while_read_cycles\<close>, \<open>read_cycles\<close> is what the loop of \<open>listen\<close>
  does on a port whose reads deliver the chunks.
\<close>

theorem read_cycles_chunk_invariant:
  assumes "tokenize s = delimeter_tokenizer d"
    and "data_buffer s = []"
    and "list_all never_throws (filters s)"
    and "distinct (map fid (filters s))"
    and "f \<in> set (filters s)"
  shows "fst (read_cycles chunks s) = None
     \<and> data_buffer (snd (read_cycles chunks s)) = last (delimeter_tokenizer d (concat chunks))
     \<and> delivered f (callback_queue (snd (read_cycles chunks s))) =
         delivered f (callback_queue s) @
         [t \<leftarrow> butlast (delimeter_tokenizer d (concat chunks)). comparator' f t = Inr True]"
proof -
  have fixed: "delimeter_tokenizer d (data_buffer s) = [data_buffer s]"
    using assms(2) by simp
  have never: "\<forall>g\<in>set (filters s). \<forall>t. returns g t"
    using assms(3) by (simp add: list_all_iff never_throws_def)
  from read_cycles_invariant[OF assms(1) fixed never assms(4,5), of chunks]
  show ?thesis using assms(2) by simp
qed

theorem read_cycles_chunk_invariant_witness:
  "tokenize two_filters = delimeter_tokenizer [CR]
   \<and> data_buffer two_filters = []
   \<and> list_all never_throws (filters two_filters)
   \<and> distinct (map fid (filters two_filters))
   \<and> filter_b \<in> set (filters two_filters)
   \<and> fst (read_cycles [''AB'' @ [CR] @ ''CD'', ''EF'' @ [CR]] two_filters) = None
   \<and> data_buffer (snd (read_cycles [''AB'' @ [CR] @ ''CD'', ''EF'' @ [CR]] two_filters)) = []
   \<and> delivered filter_b (callback_queue (snd (read_cycles [''AB'' @ [CR] @ ''CD'', ''EF'' @ [CR]] two_filters)))
       = [''AB'', ''CDEF'']"
proof -
  have h1: "tokenize two_filters = delimeter_tokenizer [CR]"
    and h2: "data_buffer two_filters = []"
    by (simp_all add: two_filters_more)
  have h3: "list_all never_throws (filters two_filters)"
    by (simp add: two_filters_fields never_throws_any_token)
  have h4: "distinct (map fid (filters two_filters))"
    by (simp add: two_filters_fields filter_a_def filter_b_def)
  have h5: "filter_b \<in> set (filters two_filters)"
    by (simp add: two_filters_fields)
  have acc: "comparator' filter_b = any_token"
    by (simp add: filter_b_def)
  note concl = read_cycles_chunk_invariant[OF h1 h2 h3 h4 h5, of "[''AB'' @ [CR] @ ''CD'', ''EF'' @ [CR]]"]
  from concl have
    "fst (read_cycles [''AB'' @ [CR] @ ''CD'', ''EF'' @ [CR]] two_filters) = None"
    "data_buffer (snd (read_cycles [''AB'' @ [CR] @ ''CD'', ''EF'' @ [CR]] two_filters)) = []"
    "delivered filter_b (callback_queue (snd (read_cycles [''AB'' @ [CR] @ ''CD'', ''EF'' @ [CR]] two_filters)))
       = [''AB'', ''CDEF'']"
    by (simp_all only: tokenizer_AB_CDEF two_filters_fields delivered_simps acc any_token_def)
       simp_all
  with h1 h2 h3 h4 h5 show ?thesis by (intro conjI)
qed

section \<open>The consumer after the flag is cleared\<close>

text \<open>
  Claim C10 says that once the listening flag is false the consumer never invokes a
  callback. Between the inner test \<open>if (this->listening)\<close> and the call of the callback
  another thread can clear the flag: the consumer tests the outer condition, pops the
  entry and passes the inner test while the flag is set; \<open>stopListening\<close> clears the
  flag; the consumer then calls the callback of the entry, with the flag false.
\<close>

theorem callback_invoked_after_flag_cleared:
  "listening (engine (run [ConsumerStep, ConsumerStep, ConsumerStep, FlagCleared] at_loop_head)) = False
   \<and> trace (engine (run [ConsumerStep, ConsumerStep, ConsumerStep, FlagCleared] at_loop_head)) = []
   \<and> trace (engine (run [ConsumerStep, ConsumerStep, ConsumerStep, FlagCleared, ConsumerStep] at_loop_head))
       = [CallbackInvoked 1 ''PING'']"
  by (simp add: callback_step_def at_loop_head_def started_fields invoke_def filter_a_def quiet_def)

lemma act_stopped:
  "\<not> listening (engine r) \<Longrightarrow> at r \<noteq> AtInvoke \<Longrightarrow>
   \<not> listening (engine (act a r)) \<and> at (act a r) \<noteq> AtInvoke
   \<and> trace (engine (act a r)) = trace (engine r)"
  by (cases a) (auto simp: callback_step_def split: position.splits list.splits)

text \<open>
  With the flag false and the consumer not between the inner test and the call, no
  schedule adds anything to the trace.
\<close>

lemma run_stopped_idle:
  "\<not> listening (engine r) \<Longrightarrow> at r \<noteq> AtInvoke \<Longrightarrow>
   trace (engine (run as r)) = trace (engine r)"
proof (induction as arbitrary: r)
  case Nil
  then show ?case by simp
next
  case (Cons a as)
  from act_stopped[OF Cons.prems, of a]
  have "trace (engine (run as (act a r))) = trace (engine (act a r))"
    and "trace (engine (act a r)) = trace (engine r)"
    using Cons.IH by simp_all
  then show ?case by simp
qed

lemma callbacks_append: "callbacks (tr @ tr') = callbacks tr @ callbacks tr'"
  by (induction tr rule: callbacks.induct) simp_all

text \<open>
  The step of the consumer that stands between the inner test and the call invokes the
  callback of the entry it holds, once, and leaves that position.
\<close>

lemma pending_call:
  assumes "\<not> listening (engine r)" and "at r = AtInvoke"
  shows "\<not> listening (engine (callback_step r)) \<and> at (callback_step r) \<noteq> AtInvoke
     \<and> callbacks (trace (engine (callback_step r))) =
         callbacks (trace (engine r)) @ (case pair r of None \<Rightarrow> [] | Some (f, token) \<Rightarrow> [(fid f, token)])"
  using assms
  by (auto simp: callback_step_def invoke_def default_handler_def handle_exc_def callbacks_append
      Let_def split: option.splits prod.splits callback.splits thrown.splits)

lemma others_keep_pending:
  assumes "\<not> listening (engine r)" and "a \<noteq> ConsumerStep"
  shows "\<not> listening (engine (act a r)) \<and> at (act a r) = at r \<and> pair (act a r) = pair r
     \<and> trace (engine (act a r)) = trace (engine r)"
  using assms by (cases a) simp_all

text \<open>
  Claim C10, amended: once the listening flag is false, the consumer invokes no filter
  callback except at most the one of the entry whose inner test it had already passed
  while the flag was still set. From any state in which the flag is false, whatever the
  other threads push and however the threads are interleaved: if the consumer is not
  between the inner test and the call, nothing is added to the trace (no callback and
  no handler is called), so an entry popped after the flag became false is dropped at
  the inner test without its callback being invoked; and if it is between the inner
  test and the call, the callbacks invoked are those invoked before, followed by at
  most one: that of the entry the consumer holds, with its token.
\<close>

theorem callback_stopped_at_most_pending:
  assumes "\<not> listening (engine r)"
  shows "(at r \<noteq> AtInvoke \<longrightarrow> trace (engine (run as r)) = trace (engine r))
     \<and> (callbacks (trace (engine (run as r))) = callbacks (trace (engine r))
        \<or> (\<exists>f token. at r = AtInvoke \<and> pair r = Some (f, token)
              \<and> callbacks (trace (engine (run as r))) = callbacks (trace (engine r)) @ [(fid f, token)]))"
proof (intro conjI impI)
  assume "at r \<noteq> AtInvoke"
  with assms show "trace (engine (run as r)) = trace (engine r)" by (rule run_stopped_idle)
next
  show "callbacks (trace (engine (run as r))) = callbacks (trace (engine r))
        \<or> (\<exists>f token. at r = AtInvoke \<and> pair r = Some (f, token)
              \<and> callbacks (trace (engine (run as r))) = callbacks (trace (engine r)) @ [(fid f, token)])"
    using assms
  proof (induction as arbitrary: r)
    case Nil
    then show ?case by simp
  next
    case (Cons a as)
    show ?case
    proof (cases "at r = AtInvoke")
      case False
      with Cons.prems have "trace (engine (run (a # as) r)) = trace (engine r)"
        by (rule run_stopped_idle)
      then show ?thesis by simp
    next
      case True
      show ?thesis
      proof (cases "a = ConsumerStep")
        case c: True
        from pending_call[OF Cons.prems True]
        have st: "\<not> listening (engine (callback_step r))" "at (callback_step r) \<noteq> AtInvoke"
          and cb: "callbacks (trace (engine (callback_step r))) =
             callbacks (trace (engine r)) @ (case pair r of None \<Rightarrow> [] | Some (f, token) \<Rightarrow> [(fid f, token)])"
          by simp_all
        have "trace (engine (run as (callback_step r))) = trace (engine (callback_step r))"
          using st by (rule run_stopped_idle)
        then have "callbacks (trace (engine (run (a # as) r))) =
             callbacks (trace (engine r)) @ (case pair r of None \<Rightarrow> [] | Some (f, token) \<Rightarrow> [(fid f, token)])"
          using c cb by simp
        with True show ?thesis by (cases "pair r") auto
      next
        case False
        from others_keep_pending[OF Cons.prems False]
        have k: "\<not> listening (engine (act a r))" "at (act a r) = at r" "pair (act a r) = pair r"
          "trace (engine (act a r)) = trace (engine r)"
          by simp_all
        from Cons.IH[OF k(1)] k(2,3,4) show ?thesis by simp
      qed
    qed
  qed
qed

text \<open>
  Two runs with the flag false. In the first the consumer stands before the pop: it pops
  the entry \<open>PING\<close>, drops it at the inner test and returns, and the trace is as before.
  In the second it stands between the inner test and the call, holding \<open>PING\<close> of
  filter 1, while \<open>PONG\<close> waits in the queue and \<open>PANG\<close> is pushed: the one callback
  invoked is that of \<open>PING\<close>; \<open>PONG\<close> and \<open>PANG\<close> stay in the queue and the
  consumer returns.
\<close>

theorem callback_stopped_at_most_pending_witness:
  "\<not> listening (engine stopped_before_pop)
   \<and> at stopped_before_pop = AtPop
   \<and> callback_queue (engine stopped_before_pop) = [(filter_a, ''PING'')]
   \<and> trace (engine (run [ConsumerStep, ConsumerStep, ConsumerStep] stopped_before_pop))
       = trace (engine stopped_before_pop)
   \<and> callback_queue (engine (run [ConsumerStep, ConsumerStep, ConsumerStep] stopped_before_pop)) = []
   \<and> at (run [ConsumerStep, ConsumerStep, ConsumerStep] stopped_before_pop) = Returned
   \<and> \<not> listening (engine stopped_before_call)
   \<and> at stopped_before_call = AtInvoke
   \<and> pair stopped_before_call = Some (filter_a, ''PING'')
   \<and> callbacks (trace (engine stopped_before_call)) = []
   \<and> callbacks (trace (engine
         (run [Pushed filter_b ''PANG'', ConsumerStep, ConsumerStep, ConsumerStep] stopped_before_call)))
       = [(1, ''PING'')]
   \<and> callback_queue (engine
         (run [Pushed filter_b ''PANG'', ConsumerStep, ConsumerStep, ConsumerStep] stopped_before_call))
       = [(filter_b, ''PONG''), (filter_b, ''PANG'')]
   \<and> at (run [Pushed filter_b ''PANG'', ConsumerStep, ConsumerStep, ConsumerStep] stopped_before_call)
       = Returned"
proof -
  have h1: "\<not> listening (engine stopped_before_pop)"
    by (simp add: stopped_before_pop_def)
  have h2: "\<not> listening (engine stopped_before_call)"
    by (simp add: stopped_before_call_def)
  have idle: "at stopped_before_pop = AtPop"
    "callback_queue (engine stopped_before_pop) = [(filter_a, ''PING'')]"
    "callback_queue (engine (run [ConsumerStep, ConsumerStep, ConsumerStep] stopped_before_pop)) = []"
    "at (run [ConsumerStep, ConsumerStep, ConsumerStep] stopped_before_pop) = Returned"
    by (simp_all add: stopped_before_pop_def callback_step_def)
  have pending: "at stopped_before_call = AtInvoke"
    "pair stopped_before_call = Some (filter_a, ''PING'')"
    "callbacks (trace (engine stopped_before_call)) = []"
    "fid filter_a = 1"
    by (simp_all add: stopped_before_call_def started_fields filter_a_def)
  have rest: "callback_queue (engine
         (run [Pushed filter_b ''PANG'', ConsumerStep, ConsumerStep, ConsumerStep] stopped_before_call))
       = [(filter_b, ''PONG''), (filter_b, ''PANG'')]"
    "at (run [Pushed filter_b ''PANG'', ConsumerStep, ConsumerStep, ConsumerStep] stopped_before_call)
       = Returned"
    "callbacks (trace (engine
         (run [Pushed filter_b ''PANG'', ConsumerStep, ConsumerStep, ConsumerStep] stopped_before_call)))
       \<noteq> []"
    by (simp_all add: stopped_before_call_def started_fields callback_step_def invoke_def
        filter_a_def quiet_def)
  from callback_stopped_at_most_pending[OF h1, of "[ConsumerStep, ConsumerStep, ConsumerStep]"] idle(1)
  have a: "trace (engine (run [ConsumerStep, ConsumerStep, ConsumerStep] stopped_before_pop))
       = trace (engine stopped_before_pop)"
    by simp
  from callback_stopped_at_most_pending[OF h2,
      of "[Pushed filter_b ''PANG'', ConsumerStep, ConsumerStep, ConsumerStep]"] pending rest(3)
  have b: "callbacks (trace (engine
         (run [Pushed filter_b ''PANG'', ConsumerStep, ConsumerStep, ConsumerStep] stopped_before_call)))
       = [(1, ''PING'')]"
    by (simp del: run.simps)
  from h1 h2 idle pending(1,2,3) rest(1,2) a b show ?thesis by (intro conjI)
qed

end
